theory Spec2Isabelle
  imports Complex_Main
begin

section \<open>Strings and characters\<close>

text \<open>
  Option names, tokens and keys are modelled as \<^typ>\<open>string\<close>. The two regular expressions
  of \<open>getOptionFormat\<close> only ever inspect the dash, the class \<open>\w\<close> (ASCII letters, digits and
  the underscore) and the class \<open>[A-Z]\<close>; every other character is copied through untouched.
  \<open>toUpperCase\<close> and \<open>toLowerCase\<close> are applied by the source only to a dash or to a
  character matched by one of these two classes, where they are the ASCII case mappings.
\<close>

definition is_dash :: "char \<Rightarrow> bool" where
  "is_dash c = (c = CHR ''-'')"

definition isWordChar :: "char \<Rightarrow> bool" where
  "isWordChar c =
     (let n = (of_char c :: nat)
      in (48 \<le> n \<and> n \<le> 57) \<or> (65 \<le> n \<and> n \<le> 90) \<or> n = 95 \<or> (97 \<le> n \<and> n \<le> 122))"

definition isUpperAZ :: "char \<Rightarrow> bool" where
  "isUpperAZ c = (let n = (of_char c :: nat) in 65 \<le> n \<and> n \<le> 90)"

definition toUpperCase_char :: "char \<Rightarrow> char" where
  "toUpperCase_char c =
     (let n = (of_char c :: nat) in if 97 \<le> n \<and> n \<le> 122 then char_of (n - 32) else c)"

definition toLowerCase_char :: "char \<Rightarrow> char" where
  "toLowerCase_char c =
     (let n = (of_char c :: nat) in if 65 \<le> n \<and> n \<le> 90 then char_of (n + 32) else c)"

definition toUpperCase :: "string \<Rightarrow> string" where
  "toUpperCase s = map toUpperCase_char s"

definition toLowerCase :: "string \<Rightarrow> string" where
  "toLowerCase s = map toLowerCase_char s"

text \<open>\<open>s.substr(-1)\<close>: the last character of \<open>s\<close> as a string, the empty string when \<open>s\<close> is empty.\<close>

definition substr_last :: "string \<Rightarrow> string" where
  "substr_last s = (if s = [] then [] else [last s])"

section \<open>Errors\<close>

text \<open>An \<open>ImperativeError\<close> carries a message and, optionally, additional details.\<close>

datatype error = ImperativeError (msg: string) (additionalDetails: "string option")

section \<open>CliUtils.getDashFormOfOption\<close>

text \<open>
  Modelled from the spec: the constant \<open>Constants.OPT_LONG_DASH\<close>, declared in the module
  of constants; the specification gives the prefix of a longer name as two dashes.
\<close>

definition OPT_LONG_DASH :: string where
  "OPT_LONG_DASH = ''--''"

text \<open>
  Modelled from the spec: the constant \<open>Constants.OPT_SHORT_DASH\<close>, declared in the module
  of constants; the specification gives the prefix of a single-character name as one dash.
\<close>

definition OPT_SHORT_DASH :: string where
  "OPT_SHORT_DASH = ''-''"

text \<open>The argument is \<open>None\<close> for a \<open>null\<close> or \<open>undefined\<close> option name.\<close>

definition getDashFormOfOption :: "string option \<Rightarrow> error + string" where
  "getDashFormOfOption optionName =
     (case optionName of
        Some s \<Rightarrow>
          if length s \<ge> 1 then
            (let dashes = (if length s > 1 then OPT_LONG_DASH else OPT_SHORT_DASH)
             in Inr (dashes @ s))
          else Inl (ImperativeError
                 ''A null or blank option was supplied. Please correct the option definition.'' None)
      | None \<Rightarrow> Inl (ImperativeError
                 ''A null or blank option was supplied. Please correct the option definition.'' None))"

section \<open>CliUtils.getOptionFormat\<close>

record IOptionFormat =
  camelCase :: string
  kebabCase :: string
  key :: string

subsection \<open>The camel-case replacement\<close>

text \<open>
  \<open>match_camel s\<close> is the length of the match of \<open>-+\w?\<close> anchored at the start of \<open>s\<close>, if
  there is one: the whole run of dashes (the quantifier is greedy) and then one word character
  when one follows.
\<close>

definition match_camel :: "string \<Rightarrow> nat option" where
  "match_camel s =
     (let n = length (takeWhile is_dash s)
      in if n = 0 then None
         else (case drop n s of
                 [] \<Rightarrow> Some n
               | c # _ \<Rightarrow> if isWordChar c then Some (n + 1) else Some n))"

definition camel_replacer :: "string \<Rightarrow> string" where
  "camel_replacer p1 =
     (let returnChar = toUpperCase (substr_last p1)
      in if returnChar \<noteq> ''-'' then returnChar else [])"

text \<open>
  \<open>String.prototype.replace\<close> with a global pattern: scan from the left; where the pattern
  matches, emit the replacement and go on behind the match, otherwise copy one character.
\<close>

function camel_replace :: "string \<Rightarrow> string" where
  "camel_replace s =
     (case s of
        [] \<Rightarrow> []
      | c # cs \<Rightarrow>
          (case match_camel s of
             None \<Rightarrow> c # camel_replace cs
           | Some n \<Rightarrow> camel_replacer (take n s) @ camel_replace (drop n s)))"
  by pat_completeness auto
termination
proof (relation "measure length")
  show "wf (measure length)" by simp
next
  fix s :: string and c cs
  assume "s = c # cs"
  then show "(cs, s) \<in> measure length" by simp
next
  fix s :: string and c cs n
  assume s: "s = c # cs" and m: "match_camel s = Some n"
  from m have "0 < n"
    by (auto simp: match_camel_def Let_def split: if_splits list.splits)
  with s show "(drop n s, s) \<in> measure length" by simp
qed

subsection \<open>The kebab-case replacement\<close>

text \<open>
  \<open>match_kebab s\<close> is the length of the match of \<open>-*[A-Z]|-{2,}|-$\<close> anchored at the start of
  \<open>s\<close>. With \<open>n\<close> the length of the leading run of dashes: the first alternative matches
  exactly when an upper-case letter follows the run (a shorter run of dashes is followed by a
  dash); failing that, the second matches when \<open>n \<ge> 2\<close>; failing that, the third matches when
  the string is a single dash.
\<close>

definition match_kebab :: "string \<Rightarrow> nat option" where
  "match_kebab s =
     (let n = length (takeWhile is_dash s)
      in (case drop n s of
            c # _ \<Rightarrow> if isUpperAZ c then Some (n + 1)
                     else if 2 \<le> n then Some n
                     else None
          | [] \<Rightarrow> if 2 \<le> n then Some n
                  else if n = 1 then Some 1
                  else None))"

definition kebab_replacer :: "string \<Rightarrow> nat \<Rightarrow> string \<Rightarrow> string" where
  "kebab_replacer p1 offset inputString =
     (if length p1 = 1 then
        (if p1 = ''-'' then []
         else ''-'' @ toLowerCase p1)
      else
        (let returnChar = substr_last p1
         in if returnChar = ''-'' then
              (if offset + length p1 = length inputString then []
               else ''-'')
            else ''-'' @ toLowerCase returnChar))"

function kebab_replace :: "string \<Rightarrow> nat \<Rightarrow> string \<Rightarrow> string" where
  "kebab_replace inputString offset s =
     (case s of
        [] \<Rightarrow> []
      | c # cs \<Rightarrow>
          (case match_kebab s of
             None \<Rightarrow> c # kebab_replace inputString (offset + 1) cs
           | Some n \<Rightarrow> kebab_replacer (take n s) offset inputString
                       @ kebab_replace inputString (offset + n) (drop n s)))"
  by pat_completeness auto
termination
proof (relation "measure (\<lambda>(i, off, s). length s)")
  show "wf (measure (\<lambda>(i, off, s). length s))" by simp
next
  fix inputString :: string and offset :: nat and s :: string and c cs
  assume "s = c # cs"
  then show "((inputString, offset + 1, cs), (inputString, offset, s))
               \<in> measure (\<lambda>(i, off, s). length s)" by simp
next
  fix inputString :: string and offset :: nat and s :: string and c cs n
  assume s: "s = c # cs" and m: "match_kebab s = Some n"
  from m have "0 < n"
    by (auto simp: match_kebab_def Let_def split: if_splits list.splits)
  with s show "((inputString, offset + n, drop n s), (inputString, offset, s))
               \<in> measure (\<lambda>(i, off, s). length s)" by simp
qed

definition getOptionFormat :: "string \<Rightarrow> IOptionFormat" where
  "getOptionFormat k =
     \<lparr> camelCase = camel_replace k,
       kebabCase = kebab_replace k 0 k,
       key = k \<rparr>"

subsection \<open>Auxiliary notions for the canonical forms\<close>

definition isAsciiLetter :: "char \<Rightarrow> bool" where
  "isAsciiLetter c =
     (let n = (of_char c :: nat) in (65 \<le> n \<and> n \<le> 90) \<or> (97 \<le> n \<and> n \<le> 122))"

text \<open>
  \<open>letter_after_dashes s\<close>: every dash of \<open>s\<close> that has a successor is followed by another dash
  or by an ASCII letter; that is, every run of dashes ends the string or is followed by a letter.
\<close>

definition letter_after_dashes :: "string \<Rightarrow> bool" where
  "letter_after_dashes s =
     list_all (\<lambda>(c, d). is_dash c \<longrightarrow> is_dash d \<or> isAsciiLetter d) (zip s (tl s))"

text \<open>
  A direct recursion for the kebab-case form, used in the proofs below; it is shown to agree
  with the scanning function \<open>kebab_replace\<close> defined from the source.
\<close>

fun kebab_rec :: "string \<Rightarrow> string" where
  "kebab_rec [] = []"
| "kebab_rec [c] =
     (if is_dash c then [] else if isUpperAZ c then [CHR ''-'', toLowerCase_char c] else [c])"
| "kebab_rec (c # d # cs) =
     (if is_dash c then
        (if is_dash d then kebab_rec (d # cs)
         else CHR ''-'' # toLowerCase_char d # kebab_rec cs)
      else if isUpperAZ c then CHR ''-'' # toLowerCase_char c # kebab_rec (d # cs)
      else c # kebab_rec (d # cs))"

section \<open>JavaScript values and objects\<close>

text \<open>
  A JSON document, as \<open>JSON.stringify\<close> serialises a value. Finite numbers are compared by
  their value, so they are taken as rationals.
\<close>

datatype json =
    JNull
  | JBool bool
  | JNumber rat
  | JString string
  | JArray "json list"
  | JObject "(string \<times> json) list"

text \<open>
  A run-time value: a primitive, or a reference to an object or array. \<open>Object r j\<close> is the
  reference with address \<open>r\<close> whose referent has the structure \<open>j\<close>.
\<close>

datatype jsvalue =
    Undefined
  | Null
  | Boolean bool
  | Number rat
  | String string
  | Object nat json

text \<open>The operator \<open>===\<close>: primitives by value, references by address.\<close>

fun strict_equals :: "jsvalue \<Rightarrow> jsvalue \<Rightarrow> bool" where
  "strict_equals Undefined Undefined = True"
| "strict_equals Null Null = True"
| "strict_equals (Boolean a) (Boolean b) = (a = b)"
| "strict_equals (Number a) (Number b) = (a = b)"
| "strict_equals (String a) (String b) = (a = b)"
| "strict_equals (Object r _) (Object r' _) = (r = r')"
| "strict_equals _ _ = False"

text \<open>
  An object is the list of its own properties in enumeration order; property names are
  pairwise distinct.
\<close>

type_synonym js_object = "(string \<times> jsvalue) list"

definition Object_keys :: "js_object \<Rightarrow> string list" where
  "Object_keys obj = map fst obj"

text \<open>
  \<open>obj.hasOwnProperty(k)\<close>, the method inherited from \<open>Object.prototype\<close>: whether \<open>k\<close> is
  an own property of \<open>obj\<close>.
\<close>

definition hasOwnProperty :: "js_object \<Rightarrow> string \<Rightarrow> bool" where
  "hasOwnProperty obj k = (k \<in> set (map fst obj))"

text \<open>\<open>obj[k]\<close>: the value of the property, \<open>undefined\<close> when there is none.\<close>

definition get_property :: "js_object \<Rightarrow> string \<Rightarrow> jsvalue" where
  "get_property obj k = (case map_of obj k of None \<Rightarrow> Undefined | Some v \<Rightarrow> v)"

text \<open>\<open>obj[k] = v\<close>: overwrite the property in place, or add it behind the others.\<close>

fun set_property :: "js_object \<Rightarrow> string \<Rightarrow> jsvalue \<Rightarrow> js_object" where
  "set_property [] k v = [(k, v)]"
| "set_property ((k', v') # obj) k v =
     (if k' = k then (k, v) # obj else (k', v') # set_property obj k v)"

text \<open>The object spread \<open>{...a, ...b}\<close>.\<close>

definition spread :: "js_object \<Rightarrow> js_object \<Rightarrow> js_object" where
  "spread a b = fold (\<lambda>(k, v) obj. set_property obj k v) b a"

text \<open>
  \<open>JSON.parse(JSON.stringify(args))\<close> for an argument object whose serialisation has the
  properties \<open>args\<close>: every primitive is copied, and every array or object is rebuilt as a
  fresh object of the same structure. The property at position \<open>i\<close> receives the address \<open>i\<close>,
  so the references of the copy are pairwise different.
\<close>

definition parse_value :: "nat \<Rightarrow> json \<Rightarrow> jsvalue" where
  "parse_value r j =
     (case j of
        JNull \<Rightarrow> Null
      | JBool b \<Rightarrow> Boolean b
      | JNumber n \<Rightarrow> Number n
      | JString s \<Rightarrow> String s
      | JArray _ \<Rightarrow> Object r j
      | JObject _ \<Rightarrow> Object r j)"

definition json_copy :: "(string \<times> json) list \<Rightarrow> js_object" where
  "json_copy args = map (\<lambda>(i, (k, j)). (k, parse_value i j)) (enumerate 0 args)"

definition is_primitive :: "json \<Rightarrow> bool" where
  "is_primitive j = (case j of JArray _ \<Rightarrow> False | JObject _ \<Rightarrow> False | _ \<Rightarrow> True)"

section \<open>Censoring\<close>

definition CENSOR_RESPONSE :: string where
  "CENSOR_RESPONSE = ''****''"

definition CENSORED_OPTIONS :: "string list" where
  "CENSORED_OPTIONS =
     [''auth'', ''p'', ''pass'', ''password'', ''passphrase'', ''credentials'',
      ''authentication'', ''basic-auth'', ''basicAuth'']"

text \<open>\<open>Array.prototype.indexOf\<close>: the first index holding the value, \<open>-1\<close> when there is none.\<close>

fun indexOf_from :: "'a list \<Rightarrow> 'a \<Rightarrow> int \<Rightarrow> int" where
  "indexOf_from [] v i = - 1"
| "indexOf_from (x # xs) v i = (if x = v then i else indexOf_from xs v (i + 1))"

definition indexOf :: "'a list \<Rightarrow> 'a \<Rightarrow> int" where
  "indexOf xs v = indexOf_from xs v 0"

text \<open>\<open>Array.prototype.map\<close> with a callback that may throw: the first error ends the call.\<close>

fun map_throwing :: "('a \<Rightarrow> error + 'b) \<Rightarrow> 'a list \<Rightarrow> error + 'b list" where
  "map_throwing f [] = Inr []"
| "map_throwing f (x # xs) =
     (case f x of
        Inl e \<Rightarrow> Inl e
      | Inr y \<Rightarrow> (case map_throwing f xs of Inl e \<Rightarrow> Inl e | Inr ys \<Rightarrow> Inr (y # ys)))"

subsection \<open>CliUtils.censorCLIArgs\<close>

text \<open>
  \<open>JSON.parse(JSON.stringify(args))\<close> of a list of strings is a new list of the same
  strings. The loop reads the argument list \<open>args\<close> and writes into the copy \<open>newArgs\<close>
  only; the function returns the copy.
\<close>

definition censor_after :: "string list \<Rightarrow> string \<Rightarrow> string list \<Rightarrow> string list" where
  "censor_after args v newArgs =
     (if indexOf args v \<ge> 0 then
        (let valueIndex = indexOf args v
         in if valueIndex < int (length args) - 1
            then newArgs[nat (valueIndex + 1) := CENSOR_RESPONSE]
            else newArgs)
      else newArgs)"

definition censorCLIArgs :: "string list \<Rightarrow> error + string list" where
  "censorCLIArgs args =
     (let newArgs = args
      in case map_throwing (\<lambda>n. getDashFormOfOption (Some n)) CENSORED_OPTIONS of
           Inl e \<Rightarrow> Inl e
         | Inr censoredValues \<Rightarrow> Inr (fold (censor_after args) censoredValues newArgs))"

subsection \<open>CliUtils.censorYargsArguments\<close>

definition censor_alias :: "jsvalue \<Rightarrow> string \<Rightarrow> js_object \<Rightarrow> js_object" where
  "censor_alias valueToCensor checkAliasKey newArgs =
     (if strict_equals (get_property newArgs checkAliasKey) valueToCensor
      then set_property newArgs checkAliasKey (String CENSOR_RESPONSE)
      else newArgs)"

definition censor_option :: "string \<Rightarrow> js_object \<Rightarrow> js_object" where
  "censor_option optionName newArgs =
     (if indexOf CENSORED_OPTIONS optionName \<ge> 0 then
        (let valueToCensor = get_property newArgs optionName;
             newArgs1 = set_property newArgs optionName (String CENSOR_RESPONSE)
         in fold (censor_alias valueToCensor) (Object_keys newArgs1) newArgs1)
      else newArgs)"

definition censorYargsArguments :: "(string \<times> json) list \<Rightarrow> js_object" where
  "censorYargsArguments args =
     (let newArgs = json_copy args
      in fold censor_option (Object_keys newArgs) newArgs)"

section \<open>Option values from profiles and from the environment\<close>

record ICommandOptionDefinition =
  name :: string

subsection \<open>CliUtils.setOptionValue\<close>

definition setOptionValue :: "string \<Rightarrow> jsvalue \<Rightarrow> js_object" where
  "setOptionValue optName v =
     (let names = getOptionFormat optName;
          args0 = [];
          args1 = set_property args0 (camelCase names) v;
          args2 = set_property args1 (kebabCase names) v
      in args2)"

subsection \<open>CliUtils.extractOptValueFromProfiles\<close>

text \<open>
  The loaded profiles are given by the result of \<open>profiles.get(profileType, false)\<close> for each
  profile type: \<open>None\<close> stands for \<open>null\<close> or \<open>undefined\<close>. The calls of \<open>console.log\<close> have no
  effect on the result and are left out.
\<close>

definition extract_option :: "js_object \<Rightarrow> ICommandOptionDefinition \<Rightarrow> js_object \<Rightarrow> js_object" where
  "extract_option profile opt args =
     (if hasOwnProperty profile (name opt) \<and> \<not> hasOwnProperty args (name opt)
         \<and> get_property profile (name opt) \<noteq> Undefined
      then (let keys = setOptionValue (name opt) (get_property profile (name opt))
            in spread args keys)
      else args)"

text \<open>The double quote character, as a string.\<close>

definition dquote :: string where
  "dquote = [CHR 0x22]"

fun extract_profiles ::
  "(string \<Rightarrow> js_object option) \<Rightarrow> string list \<Rightarrow> ICommandOptionDefinition list
     \<Rightarrow> js_object \<Rightarrow> error + js_object" where
  "extract_profiles profiles [] options args = Inr args"
| "extract_profiles profiles (profileType # rest) options args =
     (case profiles profileType of
        None \<Rightarrow>
          Inl (ImperativeError
                 (''Profile of type '' @ dquote @ profileType @ dquote
                    @ '' does not exist within the loaded profiles for the command.'')
                 (Some ''Command preparation was attempting to extract option values from profiles.''))
      | Some profile \<Rightarrow>
          extract_profiles profiles rest options (fold (extract_option profile) options args))"

definition extractOptValueFromProfiles ::
  "(string \<Rightarrow> js_object option) \<Rightarrow> string list \<Rightarrow> ICommandOptionDefinition list
     \<Rightarrow> error + js_object" where
  "extractOptValueFromProfiles profiles profileOrder options =
     extract_profiles profiles profileOrder options []"

subsection \<open>CliUtils.getEnvValForOption and CliUtils.extractEnvForOptions\<close>

text \<open>
  \<open>getEnvValForOption\<close> computes the option's formats and returns \<open>null\<close>; the steps that
  would form the name of the variable and read it are comments in the source.
  \<open>extractEnvForOptions\<close> calls \<open>setOptionValue\<close> for a value that is not \<open>null\<close> and drops
  what it returns.
\<close>

definition getEnvValForOption :: "string \<Rightarrow> string \<Rightarrow> string option" where
  "getEnvValForOption cmdName camelOrKababOption =
     (let optChoices = getOptionFormat camelOrKababOption in None)"

definition extractEnvForOptions :: "string \<Rightarrow> ICommandOptionDefinition list \<Rightarrow> js_object" where
  "extractEnvForOptions envPrefix options =
     fold (\<lambda>opt args.
             (case getEnvValForOption envPrefix (name opt) of
                Some envValue \<Rightarrow> (let dropped = setOptionValue (name opt) (String envValue) in args)
              | None \<Rightarrow> args))
          options []"

section \<open>The nearest command of YargsConfigurer.configure\<close>

text \<open>
  Modelled from the spec: the distance computed by the package \<open>levenshtein\<close>, which the
  source loads with \<open>require\<close>; the specification describes it as the minimum number of
  single-character insertions, deletions and substitutions that turn one string into the
  other. The search below takes the distance as a parameter.
\<close>

fun levenshtein :: "string \<Rightarrow> string \<Rightarrow> nat" where
  "levenshtein [] ys = length ys"
| "levenshtein xs [] = length xs"
| "levenshtein (x # xs) (y # ys) =
     min (min (levenshtein xs (y # ys) + 1) (levenshtein (x # xs) ys + 1))
         (levenshtein xs ys + (if x = y then 0 else 1))"

text \<open>
  \<open>String.prototype.trim\<close> on the characters of the model: tab, line feed, vertical tab, form
  feed, carriage return, space and the no-break space are white space.
\<close>

definition isWhiteSpace :: "char \<Rightarrow> bool" where
  "isWhiteSpace c = ((of_char c :: nat) \<in> {9, 10, 11, 12, 13, 32, 160})"

definition trim :: "string \<Rightarrow> string" where
  "trim s = rev (dropWhile isWhiteSpace (rev (dropWhile isWhiteSpace s)))"

text \<open>
  An entry of the flattened command tree. The search takes the list that
  \<open>CommandUtils.flattenCommandTree\<close> returns as its input.
\<close>

record ICommandTreeEntry =
  fullName :: string

text \<open>
  The state of the loop is the pair of \<open>minimumLevDistance\<close> and \<open>closestCommand\<close>; the
  latter is \<open>None\<close> while the variable is still \<open>undefined\<close>.
\<close>

definition closest_step ::
  "(string \<Rightarrow> string \<Rightarrow> nat) \<Rightarrow> string \<Rightarrow> ICommandTreeEntry
     \<Rightarrow> nat \<times> string option \<Rightarrow> nat \<times> string option" where
  "closest_step lev attemptedCommand command st =
     (if length (trim (fullName command)) = 0 then st
      else (let distance = lev attemptedCommand (fullName command)
            in if distance < fst st then (distance, Some (fullName command)) else st))"

definition closestCommand ::
  "(string \<Rightarrow> string \<Rightarrow> nat) \<Rightarrow> string \<Rightarrow> ICommandTreeEntry list \<Rightarrow> string option" where
  "closestCommand lev attemptedCommand commandTree =
     snd (fold (closest_step lev attemptedCommand) commandTree (999999, None))"

text \<open>
  The handler of an unknown command shows the root help for a blank command and otherwise
  builds the failure message from the closest command.
\<close>

datatype handler_outcome = RootHelp | FailureMessage "string option"

definition unknown_command ::
  "(string \<Rightarrow> string \<Rightarrow> nat) \<Rightarrow> string \<Rightarrow> ICommandTreeEntry list \<Rightarrow> handler_outcome" where
  "unknown_command lev attemptedCommand commandTree =
     (if length (trim attemptedCommand) = 0 then RootHelp
      else FailureMessage (closestCommand lev attemptedCommand commandTree))"

declare camel_replace.simps [simp del]
declare kebab_replace.simps [simp del]

section \<open>Properties of the canonical forms\<close>

subsection \<open>Characters\<close>

lemma is_dash_code: "is_dash c \<longleftrightarrow> (of_char c :: nat) = 45"
proof -
  have "(of_char c :: nat) = of_char (CHR ''-'') \<longleftrightarrow> c = CHR ''-''"
    by (rule of_char_eq_iff)
  then show ?thesis by (simp add: is_dash_def)
qed

lemmas char_defs = is_dash_code isWordChar_def isUpperAZ_def isAsciiLetter_def
  toUpperCase_char_def toLowerCase_char_def Let_def

lemma upper_not_dash: "isUpperAZ c \<Longrightarrow> \<not> is_dash c"
  by (simp add: char_defs)

lemma lower_of_upper: "isUpperAZ c \<Longrightarrow> \<not> is_dash (toLowerCase_char c) \<and> isWordChar (toLowerCase_char c)
   \<and> \<not> isUpperAZ (toLowerCase_char c) \<and> toUpperCase_char (toLowerCase_char c) = c"
  by (auto simp add: char_defs)

lemma toLowerCase_char_id: "\<not> isUpperAZ c \<Longrightarrow> toLowerCase_char c = c"
  by (auto simp add: char_defs)

lemma upper_of_letter: "isAsciiLetter c \<Longrightarrow> isUpperAZ (toUpperCase_char c) \<and> isWordChar c
   \<and> toLowerCase_char (toUpperCase_char c) = toLowerCase_char c"
  by (auto simp add: char_defs)

lemma upper_is_letter: "isUpperAZ c \<Longrightarrow> isAsciiLetter c \<and> isWordChar c \<and> toUpperCase_char c = c"
  by (auto simp add: char_defs)

lemma word_not_letter: "isWordChar c \<Longrightarrow> \<not> isAsciiLetter c \<Longrightarrow> toUpperCase_char c = c \<and> \<not> isUpperAZ c"
  by (auto simp add: char_defs)

lemma word_not_dash: "isWordChar c \<Longrightarrow> \<not> is_dash c \<and> \<not> is_dash (toUpperCase_char c)"
  by (auto simp add: char_defs)

lemma not_word_not_letter: "\<not> isWordChar c \<Longrightarrow> \<not> isAsciiLetter c \<and> \<not> isUpperAZ c"
  by (auto simp add: char_defs)

lemma camel_Nil: "camel_replace [] = []"
  by (subst camel_replace.simps) simp

lemma camel_nodash: "\<not> is_dash c \<Longrightarrow> camel_replace (c # cs) = c # camel_replace cs"
  by (subst camel_replace.simps) (simp add: match_camel_def)

lemma take_run: "take (length (takeWhile P xs)) xs = takeWhile P xs"
  by (induction xs) auto

lemma drop_run: "drop (length (takeWhile P xs)) xs = dropWhile P xs"
  by (induction xs) auto

lemma take_run_Suc:
  "dropWhile P xs = d # ds \<Longrightarrow> take (Suc (length (takeWhile P xs))) xs = takeWhile P xs @ [d]"
  by (induction xs) (auto split: if_splits)

lemma drop_run_Suc:
  "dropWhile P xs = d # ds \<Longrightarrow> drop (Suc (length (takeWhile P xs))) xs = ds"
  by (induction xs) (auto split: if_splits)

lemma last_dash_run: "last (CHR ''-'' # takeWhile is_dash cs) = CHR ''-''"
proof (cases "takeWhile is_dash cs = []")
  case True then show ?thesis by simp
next
  case False
  then have "last (takeWhile is_dash cs) \<in> set (takeWhile is_dash cs)" by simp
  then have "is_dash (last (takeWhile is_dash cs))" by (meson set_takeWhileD)
  with False show ?thesis by (simp add: is_dash_def)
qed

lemma camel_dash:
  "camel_replace (CHR ''-'' # cs) =
     (case dropWhile is_dash cs of
        [] \<Rightarrow> []
      | d # ds \<Rightarrow> if isWordChar d then toUpperCase_char d # camel_replace ds
                  else d # camel_replace ds)"
proof (cases "dropWhile is_dash cs")
  case Nil
  show ?thesis
    by (subst camel_replace.simps)
       (simp add: Nil match_camel_def is_dash_def[of "CHR ''-''"] drop_run take_run camel_replacer_def
          substr_last_def toUpperCase_def last_dash_run toUpperCase_char_def camel_Nil
          del: last.simps)
next
  case (Cons d ds)
  then have nd: "\<not> is_dash d"
    by (metis hd_dropWhile list.sel(1) list.distinct(1))
  show ?thesis
  proof (cases "isWordChar d")
    case True
    with word_not_dash[OF True] show ?thesis
      by (subst camel_replace.simps)
         (simp add: Cons match_camel_def is_dash_def[of "CHR ''-''"] drop_run take_run_Suc drop_run_Suc
            camel_replacer_def substr_last_def toUpperCase_def is_dash_def[of "toUpperCase_char d"])
  next
    case False
    with nd show ?thesis
      by (subst camel_replace.simps)
         (simp add: Cons match_camel_def is_dash_def[of "CHR ''-''"] drop_run take_run camel_replacer_def
            substr_last_def toUpperCase_def last_dash_run toUpperCase_char_def camel_nodash
            del: last.simps)
  qed
qed

lemma kebab_Nil: "kebab_replace i off [] = []"
  by (subst kebab_replace.simps) simp

lemma kebab_plain:
  "\<not> is_dash c \<Longrightarrow> \<not> isUpperAZ c \<Longrightarrow>
     kebab_replace i off (c # cs) = c # kebab_replace i (Suc off) cs"
  by (subst kebab_replace.simps) (simp add: match_kebab_def)

lemma kebab_upper:
  "isUpperAZ c \<Longrightarrow>
     kebab_replace i off (c # cs) = CHR ''-'' # toLowerCase_char c # kebab_replace i (Suc off) cs"
  using upper_not_dash[of c]
  by (subst kebab_replace.simps)
     (simp add: match_kebab_def kebab_replacer_def toLowerCase_def is_dash_def[of c])

lemma kebab_dash:
  assumes "off + Suc (length cs) = length i"
  shows "kebab_replace i off (CHR ''-'' # cs) =
     (case dropWhile is_dash cs of
        [] \<Rightarrow> []
      | d # ds \<Rightarrow> CHR ''-'' # toLowerCase_char d #
                  kebab_replace i (off + length (takeWhile is_dash cs) + 2) ds)"
proof (cases "dropWhile is_dash cs")
  case Nil
  then have all: "takeWhile is_dash cs = cs" by simp
  show ?thesis
    using assms
    by (subst kebab_replace.simps)
       (simp add: Nil all match_kebab_def is_dash_def[of "CHR ''-''"] drop_run take_run
          kebab_replacer_def substr_last_def last_dash_run[of cs, unfolded all] kebab_Nil
          Suc_le_eq del: last.simps)
next
  case (Cons d ds)
  then have nd: "\<not> is_dash d"
    by (metis hd_dropWhile list.sel(1) list.distinct(1))
  have len: "length cs = length (takeWhile is_dash cs) + Suc (length ds)"
    using Cons by (metis length_append takeWhile_dropWhile_id length_Cons)
  show ?thesis
  proof (cases "isUpperAZ d")
    case True
    show ?thesis
      using nd
      by (subst kebab_replace.simps)
         (simp add: Cons True match_kebab_def is_dash_def[of "CHR ''-''"] drop_run take_run_Suc
            drop_run_Suc kebab_replacer_def substr_last_def toLowerCase_def is_dash_def[of d])
  next
    case False
    show ?thesis
    proof (cases "takeWhile is_dash cs = []")
      case True
      then have cs: "cs = d # ds" using Cons by (metis takeWhile_dropWhile_id append_Nil)
      show ?thesis
        using nd False
        by (subst kebab_replace.simps)
           (simp add: cs match_kebab_def is_dash_def[of "CHR ''-''"] kebab_plain
              toLowerCase_char_id)
    next
      case run: False
      then have two: "2 \<le> Suc (length (takeWhile is_dash cs))" by (cases "takeWhile is_dash cs") auto
      show ?thesis
        using nd False two assms len run
        by (subst kebab_replace.simps)
           (simp add: Cons match_kebab_def is_dash_def[of "CHR ''-''"] drop_run take_run
              kebab_replacer_def substr_last_def last_dash_run kebab_plain toLowerCase_char_id
              del: last.simps)
    qed
  qed
qed

lemma kebab_replace_rec:
  "off + length s = length i \<Longrightarrow> kebab_replace i off s = kebab_rec s"
proof (induction s arbitrary: off rule: kebab_rec.induct)
  case 1
  show ?case by (simp add: kebab_Nil)
next
  case (2 c)
  then show ?case
    by (cases "is_dash c")
       (auto simp: kebab_dash[of off "[]" i, simplified] kebab_plain kebab_upper kebab_Nil is_dash_def)
next
  case (3 c d cs)
  show ?case
  proof (cases "is_dash c")
    case True
    then have c: "c = CHR ''-''" by (simp add: is_dash_def)
    show ?thesis
    proof (cases "is_dash d")
      case dd: True
      then have d: "d = CHR ''-''" by (simp add: is_dash_def)
      have "kebab_replace i off (c # d # cs) = kebab_replace i (Suc off) (d # cs)"
      proof (cases "dropWhile is_dash cs")
        case Nil
        show ?thesis
          using "3.prems"
          by (simp add: Nil c d kebab_dash[of off "CHR ''-'' # cs" i] kebab_dash[of "Suc off" cs i]
                is_dash_def[of "CHR ''-''"])
      next
        case (Cons e es)
        show ?thesis
          using "3.prems"
          by (simp add: Cons c d kebab_dash[of off "CHR ''-'' # cs" i] kebab_dash[of "Suc off" cs i]
                is_dash_def[of "CHR ''-''"])
      qed
      also have "\<dots> = kebab_rec (d # cs)"
        using "3.prems" True dd by (intro "3.IH"(1)) auto
      finally show ?thesis using True dd by simp
    next
      case nd: False
      have "kebab_replace i off (c # d # cs)
              = CHR ''-'' # toLowerCase_char d # kebab_replace i (off + 2) cs"
        using "3.prems" nd by (simp add: c kebab_dash[of off "d # cs" i])
      also have "kebab_replace i (off + 2) cs = kebab_rec cs"
        using "3.prems" True nd by (intro "3.IH"(2)) auto
      finally show ?thesis using True nd by simp
    qed
  next
    case False
    have ih: "kebab_replace i (Suc off) (d # cs) = kebab_rec (d # cs)"
    proof (cases "isUpperAZ c")
      case True
      with False "3.prems" show ?thesis by (intro "3.IH"(3)) auto
    next
      case nu: False
      with False "3.prems" show ?thesis by (intro "3.IH"(4)) auto
    qed
    show ?thesis
      using False ih by (cases "isUpperAZ c") (simp_all add: kebab_upper kebab_plain)
  qed
qed

lemma kebabCase_rec: "kebabCase (getOptionFormat x) = kebab_rec x"
  by (simp add: getOptionFormat_def kebab_replace_rec)

lemma camelCase_replace: "camelCase (getOptionFormat x) = camel_replace x"
  by (simp add: getOptionFormat_def)

lemma camel_dash_dash:
  "is_dash c \<Longrightarrow> is_dash d \<Longrightarrow> camel_replace (c # d # cs) = camel_replace (d # cs)"
  by (simp add: is_dash_def camel_dash)

lemma camel_dash_char:
  "is_dash c \<Longrightarrow> \<not> is_dash d \<Longrightarrow>
     camel_replace (c # d # cs) =
       (if isWordChar d then toUpperCase_char d else d) # camel_replace cs"
  by (simp add: is_dash_def[of c] camel_dash)

lemma camel_single_dash: "is_dash c \<Longrightarrow> camel_replace [c] = []"
  by (simp add: is_dash_def camel_dash)

lemma kebab_rec_nodash:
  "\<not> is_dash c \<Longrightarrow>
     kebab_rec (c # cs) =
       (if isUpperAZ c then CHR ''-'' # toLowerCase_char c # kebab_rec cs else c # kebab_rec cs)"
  by (cases cs) simp_all

lemma camel_kebab_rec: "camel_replace (kebab_rec s) = camel_replace s"
proof (induction s rule: kebab_rec.induct)
  case 1
  show ?case by simp
next
  case (2 c)
  show ?case
    using lower_of_upper[of c]
    by (auto simp: camel_single_dash camel_Nil camel_dash_char[of "CHR ''-''"] is_dash_def[of "CHR ''-''"]
          camel_nodash)
next
  case (3 c d cs)
  show ?case
  proof (cases "is_dash c")
    case True
    show ?thesis
    proof (cases "is_dash d")
      case dd: True
      with True "3.IH"(1) show ?thesis by (simp add: camel_dash_dash)
    next
      case nd: False
      have low: "\<not> is_dash (toLowerCase_char d)"
        using nd lower_of_upper[of d] toLowerCase_char_id[of d] by (cases "isUpperAZ d") auto
      have cap: "(if isWordChar (toLowerCase_char d) then toUpperCase_char (toLowerCase_char d)
                  else toLowerCase_char d)
               = (if isWordChar d then toUpperCase_char d else d)"
        using lower_of_upper[of d] toLowerCase_char_id[of d] upper_is_letter[of d]
        by (cases "isUpperAZ d") auto
      from True nd "3.IH"(2) low cap show ?thesis
        by (simp add: camel_dash_char[of "CHR ''-''"] is_dash_def[of "CHR ''-''"] camel_dash_char[of c])
    qed
  next
    case False
    show ?thesis
    proof (cases "isUpperAZ c")
      case True
      with False "3.IH"(3) lower_of_upper[of c] show ?thesis
        by (simp add: camel_dash_char[of "CHR ''-''"] is_dash_def[of "CHR ''-''"] camel_nodash)
    next
      case nu: False
      with False "3.IH"(4) show ?thesis by (simp add: camel_nodash)
    qed
  qed
qed

lemma letter_after_dashes_Cons2:
  "letter_after_dashes (c # d # cs) \<longleftrightarrow>
     (is_dash c \<longrightarrow> is_dash d \<or> isAsciiLetter d) \<and> letter_after_dashes (d # cs)"
  by (simp add: letter_after_dashes_def)

lemma letter_after_dashes_tl:
  "letter_after_dashes (c # cs) \<Longrightarrow> letter_after_dashes cs"
  by (cases cs) (simp_all add: letter_after_dashes_def)

lemma letter_after_dashes_skip:
  "\<not> is_dash d \<Longrightarrow> letter_after_dashes (d # cs) \<longleftrightarrow> letter_after_dashes cs"
  by (cases cs) (simp_all add: letter_after_dashes_def)

lemma kebab_rec_camel: "kebab_rec (camel_replace s) = kebab_rec s \<longleftrightarrow> letter_after_dashes s"
proof (induction s rule: kebab_rec.induct)
  case 1
  show ?case by (simp add: camel_Nil letter_after_dashes_def)
next
  case (2 c)
  show ?case
    by (cases "is_dash c") (simp_all add: camel_single_dash camel_nodash camel_Nil letter_after_dashes_def)
next
  case (3 c d cs)
  show ?case
  proof (cases "is_dash c")
    case True
    show ?thesis
    proof (cases "is_dash d")
      case dd: True
      with True "3.IH"(1) show ?thesis
        by (simp add: camel_dash_dash letter_after_dashes_Cons2)
    next
      case nd: False
      note ih = "3.IH"(2)[OF True nd]
      show ?thesis
      proof (cases "isAsciiLetter d")
        case True
        from upper_of_letter[OF True] word_not_dash[of d]
        have "kebab_rec (camel_replace (c # d # cs))
                = CHR ''-'' # toLowerCase_char d # kebab_rec (camel_replace cs)"
          using \<open>is_dash c\<close> nd by (simp add: camel_dash_char kebab_rec_nodash)
        with ih True \<open>is_dash c\<close> nd show ?thesis
          by (simp add: letter_after_dashes_Cons2 letter_after_dashes_skip)
      next
        case False
        have "(if isWordChar d then toUpperCase_char d else d) = d" "\<not> isUpperAZ d"
          using False word_not_letter[of d] not_word_not_letter[of d] by auto
        then have "kebab_rec (camel_replace (c # d # cs)) = d # kebab_rec (camel_replace cs)"
          using \<open>is_dash c\<close> nd by (simp add: camel_dash_char kebab_rec_nodash)
        with False \<open>is_dash c\<close> nd show ?thesis
          by (auto simp: letter_after_dashes_Cons2 is_dash_def)
      qed
    qed
  next
    case False
    have ih: "kebab_rec (camel_replace (d # cs)) = kebab_rec (d # cs) \<longleftrightarrow> letter_after_dashes (d # cs)"
      using False "3.IH"(3,4) by (cases "isUpperAZ c") auto
    from False ih show ?thesis
      by (simp add: camel_nodash kebab_rec_nodash[of c] letter_after_dashes_Cons2 del: kebab_rec.simps)
  qed
qed


subsection \<open>Round trips\<close>

text \<open>
  C1, as amended. For every string \<open>x\<close>, the camel-case form of the kebab-case form of \<open>x\<close> is
  the camel-case form of \<open>x\<close>. The kebab-case form of the camel-case form of \<open>x\<close> is the
  kebab-case form of \<open>x\<close> exactly when every run of dashes in \<open>x\<close> ends the string or is
  followed by an ASCII letter.
\<close>

theorem getOptionFormat_round_trip:
  "camelCase (getOptionFormat (kebabCase (getOptionFormat x))) = camelCase (getOptionFormat x)
   \<and> (kebabCase (getOptionFormat (camelCase (getOptionFormat x))) = kebabCase (getOptionFormat x)
        \<longleftrightarrow> letter_after_dashes x)"
  by (simp add: camelCase_replace kebabCase_rec camel_kebab_rec kebab_rec_camel)

theorem getOptionFormat_round_trip_witness:
  "letter_after_dashes ''hello-World-''
   \<and> camelCase (getOptionFormat (kebabCase (getOptionFormat ''hello-World-'')))
       = camelCase (getOptionFormat ''hello-World-'')
   \<and> kebabCase (getOptionFormat (camelCase (getOptionFormat ''hello-World-'')))
       = kebabCase (getOptionFormat ''hello-World-'')"
proof -
  have h: "letter_after_dashes ''hello-World-''" by code_simp
  with getOptionFormat_round_trip [of "''hello-World-''"] show ?thesis by blast
qed

text \<open>
  C1, as stated, fails: a dash before a digit is dropped by the camel-case form and kept by
  the kebab-case form, so the kebab-case form of the camel-case form of \<open>a-1\<close> is \<open>a1\<close>, while
  the kebab-case form of \<open>a-1\<close> is \<open>a-1\<close>.
\<close>

theorem getOptionFormat_round_trip_counterexample:
  "kebabCase (getOptionFormat (camelCase (getOptionFormat ''a-1'')))
     \<noteq> kebabCase (getOptionFormat ''a-1'')"
  by code_simp

subsection \<open>The documented examples\<close>

text \<open>
  C2. The four inputs \<open>helloWorld\<close>, \<open>hello-world\<close>, \<open>hello--------world\<close> and \<open>hello-World-\<close>
  all have the camel-case form \<open>helloWorld\<close> and the kebab-case form \<open>hello-world\<close>, and the
  field \<open>key\<close> of the result is the input.
\<close>

theorem getOptionFormat_literals:
  "getOptionFormat ''helloWorld''
     = \<lparr>camelCase = ''helloWorld'', kebabCase = ''hello-world'', key = ''helloWorld''\<rparr>
   \<and> getOptionFormat ''hello-world''
     = \<lparr>camelCase = ''helloWorld'', kebabCase = ''hello-world'', key = ''hello-world''\<rparr>
   \<and> getOptionFormat ''hello--------world''
     = \<lparr>camelCase = ''helloWorld'', kebabCase = ''hello-world'', key = ''hello--------world''\<rparr>
   \<and> getOptionFormat ''hello-World-''
     = \<lparr>camelCase = ''helloWorld'', kebabCase = ''hello-world'', key = ''hello-World-''\<rparr>"
  by code_simp

section \<open>Properties of getDashFormOfOption\<close>

text \<open>
  C9. A name of length one is prefixed with one dash, a longer name with two dashes, and the
  empty name and the absent name fail with an \<open>ImperativeError\<close>.
\<close>

theorem getDashFormOfOption_forms:
  "(length s = 1 \<longrightarrow> getDashFormOfOption (Some s) = Inr (CHR ''-'' # s))
   \<and> (length s > 1 \<longrightarrow> getDashFormOfOption (Some s) = Inr (CHR ''-'' # CHR ''-'' # s))
   \<and> getDashFormOfOption (Some []) = Inl (ImperativeError
         ''A null or blank option was supplied. Please correct the option definition.'' None)
   \<and> getDashFormOfOption None = Inl (ImperativeError
         ''A null or blank option was supplied. Please correct the option definition.'' None)"
  by (simp add: getDashFormOfOption_def OPT_LONG_DASH_def OPT_SHORT_DASH_def)

theorem getDashFormOfOption_forms_witness:
  "length ''p'' = 1 \<and> getDashFormOfOption (Some ''p'') = Inr ''-p''
   \<and> length ''password'' > 1 \<and> getDashFormOfOption (Some ''password'') = Inr ''--password''"
  using getDashFormOfOption_forms [of "''p''"] getDashFormOfOption_forms [of "''password''"]
  by simp

section \<open>Properties of extractOptValueFromProfiles\<close>

lemma extract_profiles_missing:
  assumes "\<exists>t \<in> set profileOrder. profiles t = None"
  shows "\<exists>t \<in> set profileOrder. profiles t = None
           \<and> extract_profiles profiles profileOrder options args =
               Inl (ImperativeError
                 (''Profile of type '' @ dquote @ t @ dquote
                    @ '' does not exist within the loaded profiles for the command.'')
                 (Some ''Command preparation was attempting to extract option values from profiles.''))"
  using assms
proof (induction profileOrder arbitrary: args)
  case Nil
  then show ?case by simp
next
  case (Cons p ps)
  show ?case
  proof (cases "profiles p")
    case None
    then show ?thesis by auto
  next
    case (Some profile)
    with Cons.prems have "\<exists>t \<in> set ps. profiles t = None" by auto
    from Cons.IH[OF this, of "fold (extract_option profile) options args"] Some
    show ?thesis by auto
  qed
qed

text \<open>
  C6. When some profile type of \<open>profileOrder\<close> has no loaded profile, the call fails: the
  result is the error whose message names a missing profile type of the order and whose
  additional details name the operation. No argument object is returned.
\<close>

theorem extractOptValueFromProfiles_not_found:
  assumes "\<exists>t \<in> set profileOrder. profiles t = None"
  shows "\<exists>t \<in> set profileOrder. profiles t = None
           \<and> extractOptValueFromProfiles profiles profileOrder options =
               Inl (ImperativeError
                 (''Profile of type '' @ dquote @ t @ dquote
                    @ '' does not exist within the loaded profiles for the command.'')
                 (Some ''Command preparation was attempting to extract option values from profiles.''))"
  unfolding extractOptValueFromProfiles_def using assms by (rule extract_profiles_missing)

theorem extractOptValueFromProfiles_not_found_witness:
  "extractOptValueFromProfiles
      (\<lambda>t. if t = ''base'' then Some [(''host'', String ''b'')] else None)
      [''base'', ''user''] [\<lparr>name = ''host''\<rparr>]
    = Inl (ImperativeError
         (''Profile of type '' @ dquote @ ''user'' @ dquote
            @ '' does not exist within the loaded profiles for the command.'')
         (Some ''Command preparation was attempting to extract option values from profiles.''))"
proof -
  let ?P = "\<lambda>t. if t = ''base'' then Some [(''host'', String ''b'')] else None"
  have h: "\<exists>t \<in> set [''base'', ''user'']. ?P t = None" by simp
  from extractOptValueFromProfiles_not_found [OF h, of "[\<lparr>name = ''host''\<rparr>]"]
  show ?thesis by auto
qed

lemma extract_canonical_example:
  "extractOptValueFromProfiles
      (\<lambda>t. if t = ''base'' then Some [(''host'', String ''b'')]
           else if t = ''user'' then Some [(''host'', String ''u'')] else None)
      [''base'', ''user''] [\<lparr>name = ''host''\<rparr>]
    = Inr [(''host'', String ''b'')]"
  by code_simp

text \<open>
  C5 says that a value set from an earlier profile is kept under both canonical spellings
  when a later profile defines the option too. The guard of the source tests the result for
  the option's name as it is written, while \<open>setOptionValue\<close> stores the value under the two
  canonical spellings; for a name that is neither of them the guard never holds. For the
  option \<open>a-B\<close>, defined by the profiles \<open>base\<close> and \<open>user\<close>, the value of the later
  profile replaces the value of the earlier one under both spellings, while for the option
  \<open>host\<close> above the earlier value is kept.
\<close>

theorem extract_noncanonical_overridden:
  "extractOptValueFromProfiles
      (\<lambda>t. if t = ''base'' then Some [(''a-B'', String ''b'')]
           else if t = ''user'' then Some [(''a-B'', String ''u'')] else None)
      [''base'', ''user''] [\<lparr>name = ''a-B''\<rparr>]
    = Inr [(''aB'', String ''u''), (''a-b'', String ''u'')]"
  by code_simp

section \<open>Properties of extractEnvForOptions\<close>

text \<open>
  C7. The result of \<open>extractEnvForOptions\<close> is the empty object for every prefix and every
  list of options: no environment variable is read and no value is stored.
\<close>

theorem extractEnvForOptions_empty: "extractEnvForOptions envPrefix options = []"
proof -
  have "fold (\<lambda>opt args.
             (case getEnvValForOption envPrefix (name opt) of
                Some envValue \<Rightarrow> (let dropped = setOptionValue (name opt) (String envValue) in args)
              | None \<Rightarrow> args)) options a = a" for a :: js_object
    by (induction options) (simp_all add: getEnvValForOption_def)
  then show ?thesis by (simp add: extractEnvForOptions_def)
qed

section \<open>Properties of the censoring functions\<close>

subsection \<open>indexOf\<close>

lemma indexOf_from_notin: "v \<notin> set xs \<Longrightarrow> indexOf_from xs v b = - 1"
  by (induction xs arbitrary: b) auto

lemma indexOf_from_in:
  "v \<in> set xs \<Longrightarrow>
     \<exists>i < length xs. indexOf_from xs v b = b + int i \<and> xs ! i = v \<and> (\<forall>k < i. xs ! k \<noteq> v)"
proof (induction xs arbitrary: b)
  case Nil
  then show ?case by simp
next
  case (Cons x xs)
  show ?case
  proof (cases "x = v")
    case True
    then show ?thesis by (intro exI[of _ 0]) simp
  next
    case False
    with Cons.prems have "v \<in> set xs" by simp
    from Cons.IH[OF this, of "b + 1"] obtain i where i: "i < length xs"
      "indexOf_from xs v (b + 1) = b + 1 + int i" "xs ! i = v" "\<forall>k < i. xs ! k \<noteq> v"
      by blast
    have "\<forall>k < Suc i. (x # xs) ! k \<noteq> v"
      using False i(4) by (auto simp: nth_Cons split: nat.splits)
    with i False show ?thesis by (intro exI[of _ "Suc i"]) simp
  qed
qed

lemma first_occurrence_unique:
  "i < length xs \<Longrightarrow> xs ! i = v \<Longrightarrow> \<forall>k < i. xs ! k \<noteq> v \<Longrightarrow>
   j < length xs \<Longrightarrow> xs ! j = v \<Longrightarrow> \<forall>k < j. xs ! k \<noteq> v \<Longrightarrow> i = j"
  by (metis linorder_neqE_nat)

lemma indexOf_eq_iff:
  "indexOf xs v = int i \<longleftrightarrow> i < length xs \<and> xs ! i = v \<and> (\<forall>k < i. xs ! k \<noteq> v)"
proof (cases "v \<in> set xs")
  case False
  then show ?thesis by (auto simp: indexOf_def indexOf_from_notin)
next
  case True
  from indexOf_from_in[OF True, of 0] obtain i' where i': "i' < length xs"
    "indexOf xs v = int i'" "xs ! i' = v" "\<forall>k < i'. xs ! k \<noteq> v"
    by (auto simp: indexOf_def)
  show ?thesis
  proof
    assume "indexOf xs v = int i"
    with i' show "i < length xs \<and> xs ! i = v \<and> (\<forall>k < i. xs ! k \<noteq> v)" by simp
  next
    assume "i < length xs \<and> xs ! i = v \<and> (\<forall>k < i. xs ! k \<noteq> v)"
    with i' have "i = i'" using first_occurrence_unique[of i xs v i'] by blast
    with i' show "indexOf xs v = int i" by simp
  qed
qed

lemma indexOf_nonneg_iff: "indexOf xs v \<ge> 0 \<longleftrightarrow> v \<in> set xs"
proof (cases "v \<in> set xs")
  case False
  then show ?thesis by (simp add: indexOf_def indexOf_from_notin)
next
  case True
  from indexOf_from_in[OF True, of 0] show ?thesis using True by (auto simp: indexOf_def)
qed

subsection \<open>censorCLIArgs\<close>

lemma censor_after_length: "length (censor_after args v newArgs) = length newArgs"
  by (simp add: censor_after_def Let_def)

lemma censor_after_nth:
  assumes "length newArgs = length args" "j < length args"
  shows "censor_after args v newArgs ! j =
           (if \<exists>i. indexOf args v = int i \<and> j = i + 1 then CENSOR_RESPONSE else newArgs ! j)"
proof (cases "indexOf args v \<ge> 0")
  case False
  then show ?thesis by (auto simp: censor_after_def)
next
  case True
  then obtain i where i: "indexOf args v = int i" using nonneg_int_cases by blast
  show ?thesis
    using assms by (auto simp: censor_after_def Let_def i nat_add_distrib nth_list_update)
qed

lemma fold_censor_after_length:
  "length (fold (censor_after args) vs newArgs) = length newArgs"
  by (induction vs arbitrary: newArgs) (simp_all add: censor_after_length)

lemma fold_censor_after_nth:
  assumes "length newArgs = length args" "j < length args"
  shows "fold (censor_after args) vs newArgs ! j =
           (if \<exists>v \<in> set vs. \<exists>i. indexOf args v = int i \<and> j = i + 1
            then CENSOR_RESPONSE else newArgs ! j)"
  using assms
proof (induction vs arbitrary: newArgs)
  case Nil
  show ?case by simp
next
  case (Cons v vs)
  have len: "length (censor_after args v newArgs) = length args"
    using Cons.prems by (simp add: censor_after_length)
  show ?case
    using Cons.IH[OF len Cons.prems(2)] censor_after_nth[OF Cons.prems, of v]
    by auto
qed

lemma map_throwing_dash:
  "map_throwing (\<lambda>n. getDashFormOfOption (Some n)) CENSORED_OPTIONS
     = Inr (map (\<lambda>n. (if length n > 1 then ''--'' else ''-'') @ n) CENSORED_OPTIONS)"
  by (simp add: CENSORED_OPTIONS_def getDashFormOfOption_def OPT_LONG_DASH_def OPT_SHORT_DASH_def)

lemma dash_form_censored:
  "n \<in> set CENSORED_OPTIONS \<Longrightarrow>
     getDashFormOfOption (Some n) = Inr ((if length n > 1 then ''--'' else ''-'') @ n)"
  by (auto simp add: CENSORED_OPTIONS_def getDashFormOfOption_def OPT_LONG_DASH_def OPT_SHORT_DASH_def)

text \<open>
  C3. \<open>censorCLIArgs\<close> returns a list of the length of its input. The token at position
  \<open>j\<close> of the result is \<open>****\<close> when some censored option name has a dash form whose first
  occurrence in the input is at position \<open>j - 1\<close>, and is the input's token at position \<open>j\<close>
  otherwise. So the token after the first occurrence of a censored flag is replaced when
  there is one, a flag in last position changes nothing, later occurrences of the same flag
  are not looked at, and all other tokens are kept. The input list is only read: the result
  is built from a copy.
\<close>

theorem censorCLIArgs_spec:
  "\<exists>res. censorCLIArgs args = Inr res \<and> length res = length args
     \<and> (\<forall>j < length args.
           res ! j =
             (if \<exists>n \<in> set CENSORED_OPTIONS. \<exists>d i.
                   getDashFormOfOption (Some n) = Inr d
                   \<and> i < length args \<and> args ! i = d \<and> (\<forall>k < i. args ! k \<noteq> d) \<and> j = i + 1
              then CENSOR_RESPONSE else args ! j))"
proof -
  let ?vs = "map (\<lambda>n. (if length n > 1 then ''--'' else ''-'') @ n) CENSORED_OPTIONS"
  let ?res = "fold (censor_after args) ?vs args"
  have res: "censorCLIArgs args = Inr ?res"
    by (simp add: censorCLIArgs_def map_throwing_dash)
  have cond: "(\<exists>v \<in> set ?vs. \<exists>i. indexOf args v = int i \<and> j = i + 1)
       \<longleftrightarrow> (\<exists>n \<in> set CENSORED_OPTIONS. \<exists>d i.
                   getDashFormOfOption (Some n) = Inr d
                   \<and> i < length args \<and> args ! i = d \<and> (\<forall>k < i. args ! k \<noteq> d) \<and> j = i + 1)" for j
    by (auto simp: indexOf_eq_iff dash_form_censored)
  have "\<forall>j < length args. ?res ! j =
             (if \<exists>n \<in> set CENSORED_OPTIONS. \<exists>d i.
                   getDashFormOfOption (Some n) = Inr d
                   \<and> i < length args \<and> args ! i = d \<and> (\<forall>k < i. args ! k \<noteq> d) \<and> j = i + 1
              then CENSOR_RESPONSE else args ! j)"
    using fold_censor_after_nth[of args args _ ?vs] by (simp only: cond) simp
  with res show ?thesis by (simp add: fold_censor_after_length)
qed


theorem censorCLIArgs_spec_witness:
  "\<exists>res. censorCLIArgs [''--password'', ''secret123'', ''--host'', ''x''] = Inr res
     \<and> length res = 4 \<and> res ! 1 = ''****'' \<and> res ! 3 = ''x''"
proof -
  let ?A = "[''--password'', ''secret123'', ''--host'', ''x'']"
  let ?hit = "\<lambda>j. \<exists>n \<in> set CENSORED_OPTIONS. \<exists>d i.
                   getDashFormOfOption (Some n) = Inr d
                   \<and> i < length ?A \<and> ?A ! i = d \<and> (\<forall>k < i. ?A ! k \<noteq> d) \<and> j = i + 1"
  from censorCLIArgs_spec [of ?A] obtain res where res: "censorCLIArgs ?A = Inr res"
    "length res = length ?A"
    and nth: "\<And>j. j < length ?A \<Longrightarrow> res ! j = (if ?hit j then CENSOR_RESPONSE else ?A ! j)"
    by blast
  have "getDashFormOfOption (Some ''password'') = Inr ''--password''"
    by (simp add: getDashFormOfOption_def OPT_LONG_DASH_def)
  then have hit1: "?hit 1"
    by (intro bexI[of _ "''password''"] exI[of _ "''--password''"] exI[of _ 0])
       (simp_all add: CENSORED_OPTIONS_def)
  have "res ! 1 = (if ?hit 1 then CENSOR_RESPONSE else ?A ! 1)"
    by (rule nth) simp
  then have one: "res ! 1 = ''****''"
    by (simp only: hit1 if_True CENSOR_RESPONSE_def)
  have hit3: "\<not> ?hit 3"
    by (auto simp: CENSORED_OPTIONS_def getDashFormOfOption_def OPT_LONG_DASH_def
          OPT_SHORT_DASH_def nth_Cons split: nat.splits)
  have "res ! 3 = (if ?hit 3 then CENSOR_RESPONSE else ?A ! 3)"
    by (rule nth) simp
  then have three: "res ! 3 = ''x''"
    by (simp only: hit3 if_False) simp
  from res one three show ?thesis by simp
qed

subsection \<open>censorYargsArguments\<close>

lemma strict_equals_refl: "strict_equals v v"
  by (cases v) simp_all

lemma strict_equals_sym: "strict_equals v w \<Longrightarrow> strict_equals w v"
  by (cases v; cases w) simp_all

lemma strict_equals_trans: "strict_equals u v \<Longrightarrow> strict_equals v w \<Longrightarrow> strict_equals u w"
  by (cases u; cases v; cases w) simp_all

lemma strict_equals_String: "strict_equals v (String s) \<longleftrightarrow> v = String s"
  by (cases v) auto

lemma keys_set_property_gen:
  "map fst (set_property obj k v) = (if k \<in> set (map fst obj) then map fst obj else map fst obj @ [k])"
  by (induction obj) (fastforce simp: image_iff)+

lemma keys_set_property:
  "k \<in> set (Object_keys obj) \<Longrightarrow> Object_keys (set_property obj k v) = Object_keys obj"
  by (simp add: Object_keys_def keys_set_property_gen)

lemma get_set_property:
  "get_property (set_property obj k v) k' = (if k' = k then v else get_property obj k')"
  by (induction obj) (auto simp: get_property_def)

lemma fold_censor_alias:
  assumes "distinct ks" "set ks \<subseteq> set (Object_keys obj)"
  shows "Object_keys (fold (censor_alias w) ks obj) = Object_keys obj
         \<and> (\<forall>k'. get_property (fold (censor_alias w) ks obj) k' =
               (if k' \<in> set ks \<and> strict_equals (get_property obj k') w
                then String CENSOR_RESPONSE else get_property obj k'))"
  using assms
proof (induction ks arbitrary: obj)
  case Nil
  show ?case by simp
next
  case (Cons k ks)
  let ?obj = "censor_alias w k obj"
  have keys: "Object_keys ?obj = Object_keys obj"
    using Cons.prems by (simp add: censor_alias_def keys_set_property)
  have get: "get_property ?obj k' =
               (if k' = k \<and> strict_equals (get_property obj k') w
                then String CENSOR_RESPONSE else get_property obj k')" for k'
    by (auto simp add: censor_alias_def get_set_property)
  from Cons.prems keys have "distinct ks" "set ks \<subseteq> set (Object_keys ?obj)" by auto
  from Cons.IH[OF this] keys get Cons.prems(1) show ?case by auto
qed

lemma censor_option_get:
  assumes "distinct (Object_keys obj)" "k \<in> set (Object_keys obj)"
  shows "Object_keys (censor_option k obj) = Object_keys obj
         \<and> (\<forall>k' \<in> set (Object_keys obj). get_property (censor_option k obj) k' =
               (if k \<in> set CENSORED_OPTIONS \<and> strict_equals (get_property obj k') (get_property obj k)
                then String CENSOR_RESPONSE else get_property obj k'))"
proof (cases "k \<in> set CENSORED_OPTIONS")
  case False
  then show ?thesis by (simp add: censor_option_def indexOf_nonneg_iff)
next
  case True
  let ?w = "get_property obj k"
  let ?obj1 = "set_property obj k (String CENSOR_RESPONSE)"
  have keys1: "Object_keys ?obj1 = Object_keys obj"
    using assms(2) by (rule keys_set_property)
  have res: "censor_option k obj = fold (censor_alias ?w) (Object_keys obj) ?obj1"
    using True by (simp add: censor_option_def indexOf_nonneg_iff Let_def keys1)
  from assms keys1 have "distinct (Object_keys obj)" "set (Object_keys obj) \<subseteq> set (Object_keys ?obj1)"
    by auto
  from fold_censor_alias[OF this, of ?w] keys1 True show ?thesis
    unfolding res by (auto simp: get_set_property strict_equals_refl)
qed

lemma fold_censor_option:
  assumes "distinct (Object_keys obj)" "set ks \<subseteq> set (Object_keys obj)"
  shows "Object_keys (fold censor_option ks obj) = Object_keys obj
         \<and> (\<forall>k' \<in> set (Object_keys obj). get_property (fold censor_option ks obj) k' =
               (if \<exists>c \<in> set ks. c \<in> set CENSORED_OPTIONS
                      \<and> strict_equals (get_property obj k') (get_property obj c)
                then String CENSOR_RESPONSE else get_property obj k'))"
  using assms(2)
proof (induction ks rule: rev_induct)
  case Nil
  show ?case by simp
next
  case (snoc k ks)
  let ?S = "fold censor_option ks obj"
  let ?hit = "\<lambda>ks k'. \<exists>c \<in> set ks. c \<in> set CENSORED_OPTIONS
                      \<and> strict_equals (get_property obj k') (get_property obj c)"
  from snoc have keysS: "Object_keys ?S = Object_keys obj"
    and getS: "\<And>k'. k' \<in> set (Object_keys obj) \<Longrightarrow> get_property ?S k' =
               (if ?hit ks k' then String CENSOR_RESPONSE else get_property obj k')"
    by auto
  from snoc.prems have k: "k \<in> set (Object_keys obj)" by simp
  from assms(1) keysS k have "distinct (Object_keys ?S)" "k \<in> set (Object_keys ?S)" by simp_all
  note step = censor_option_get[OF this, unfolded keysS]
  have "get_property (censor_option k ?S) k' =
          (if ?hit (ks @ [k]) k' then String CENSOR_RESPONSE else get_property obj k')"
    if k': "k' \<in> set (Object_keys obj)" for k'
  proof (cases "k \<in> set CENSORED_OPTIONS")
    case False
    then have same: "get_property (censor_option k ?S) k' = get_property ?S k'"
      using step k' by simp
    have "?hit (ks @ [k]) k' \<longleftrightarrow> ?hit ks k'" using False by auto
    then show ?thesis unfolding same getS[OF k'] by simp
  next
    case True
    have new: "get_property (censor_option k ?S) k' =
        (if strict_equals (get_property ?S k') (get_property ?S k)
         then String CENSOR_RESPONSE else get_property ?S k')"
      using step k' True by simp
    have hit_snoc: "?hit (ks @ [k]) k' \<longleftrightarrow>
        ?hit ks k' \<or> strict_equals (get_property obj k') (get_property obj k)"
      using True by auto
    show ?thesis
    proof (cases "?hit ks k'")
      case hit: True
      then have "get_property ?S k' = String CENSOR_RESPONSE" using getS[OF k'] by simp
      with hit show ?thesis unfolding new hit_snoc by simp
    next
      case nohit: False
      have Sk': "get_property ?S k' = get_property obj k'"
        by (simp only: getS[OF k'] nohit if_False)
      show ?thesis
      proof (cases "?hit ks k")
        case False
        have Sk: "get_property ?S k = get_property obj k"
          by (simp only: getS[OF k] False if_False)
        show ?thesis unfolding new Sk Sk' by (simp only: hit_snoc nohit simp_thms)
      next
        case khit: True
        then have Sk: "get_property ?S k = String CENSOR_RESPONSE" using getS[OF k] by simp
        have ne: "\<not> strict_equals (get_property obj k') (get_property obj k)"
          using khit nohit strict_equals_trans by blast
        have lhs: "get_property (censor_option k ?S) k' = get_property obj k'"
          unfolding new Sk Sk' by (simp add: strict_equals_String)
        show ?thesis by (simp only: lhs hit_snoc nohit ne simp_thms if_False)
      qed
    qed
  qed
  with step keysS show ?case by simp
qed

lemma keys_copy_from:
  "map fst (map (\<lambda>(i, (k, j)). (k, parse_value i j)) (enumerate n args)) = map fst args"
  by (induction args arbitrary: n) auto

lemma keys_json_copy: "Object_keys (json_copy args) = map fst args"
  unfolding Object_keys_def json_copy_def by (rule keys_copy_from)

lemma map_of_copy_from:
  "distinct (map fst args) \<Longrightarrow> i < length args \<Longrightarrow>
     map_of (map (\<lambda>(i, (k, j)). (k, parse_value i j)) (enumerate n args)) (fst (args ! i))
       = Some (parse_value (n + i) (snd (args ! i)))"
proof (induction args arbitrary: n i)
  case Nil
  then show ?case by simp
next
  case (Cons a args)
  show ?case
  proof (cases i)
    case 0
    then show ?thesis by (cases a) simp
  next
    case (Suc i')
    have m: "fst (args ! i') \<in> fst ` set args" using Cons.prems Suc by simp
    have n: "fst a \<notin> fst ` set args" using Cons.prems by simp
    from m n have "fst (args ! i') \<noteq> fst a" by metis
    with Cons.IH[of i' "Suc n"] Cons.prems Suc show ?thesis by (cases a) simp
  qed
qed

lemma get_json_copy:
  "distinct (map fst args) \<Longrightarrow> i < length args \<Longrightarrow>
     get_property (json_copy args) (fst (args ! i)) = parse_value i (snd (args ! i))"
  by (simp add: get_property_def json_copy_def map_of_copy_from)

lemma parse_value_strict_equals:
  "strict_equals (parse_value i j) (parse_value i' j') \<longleftrightarrow>
     (if is_primitive j then j = j' else i = i' \<and> \<not> is_primitive j')"
  by (cases j; cases j') (auto simp: parse_value_def is_primitive_def)

lemma parse_value_Object: "\<not> is_primitive j \<Longrightarrow> parse_value i j = Object i j"
  by (cases j) (auto simp: parse_value_def is_primitive_def)

lemma censorYargsArguments_values:
  assumes "distinct (map fst args)"
  shows "Object_keys (censorYargsArguments args) = map fst args
         \<and> (\<forall>k \<in> set (map fst args). get_property (censorYargsArguments args) k =
               (if \<exists>c \<in> set (map fst args). c \<in> set CENSORED_OPTIONS
                      \<and> strict_equals (get_property (json_copy args) k) (get_property (json_copy args) c)
                then String CENSOR_RESPONSE else get_property (json_copy args) k))"
proof -
  have d: "distinct (Object_keys (json_copy args))" using assms by (simp add: keys_json_copy)
  from fold_censor_option[OF d subset_refl] show ?thesis
    by (simp add: censorYargsArguments_def Let_def keys_json_copy)
qed




text \<open>
  C10, as amended. When a censored key holds an array or object, its value is replaced by
  \<open>****\<close>, and a key that is not itself a censored name and holds a value of the same
  structure keeps its own copy of that value: identity is compared after the deep copy, in
  which the two values are different objects, whether or not they were one object in the
  input.
\<close>

theorem censorYargsArguments_objects:
  assumes "distinct (map fst args)"
    and "(c, v) \<in> set args" and "c \<in> set CENSORED_OPTIONS" and "\<not> is_primitive v"
    and "(k, v) \<in> set args" and "k \<notin> set CENSORED_OPTIONS"
  shows "get_property (censorYargsArguments args) c = String CENSOR_RESPONSE
         \<and> (\<exists>r. get_property (censorYargsArguments args) k = Object r v)"
proof -
  note char = censorYargsArguments_values[OF assms(1)]
  from assms(2) have cin: "c \<in> set (map fst args)" by force
  from assms(5) obtain i where i: "i < length args" "args ! i = (k, v)"
    by (auto simp: in_set_conv_nth)
  from assms(5) have kin: "k \<in> set (map fst args)" by force
  have copyk: "get_property (json_copy args) k = Object i v"
    using get_json_copy[OF assms(1) i(1)] i(2) assms(4) by (simp add: parse_value_Object)
  have no: "\<not> strict_equals (get_property (json_copy args) k) (get_property (json_copy args) c')"
    if c': "c' \<in> set (map fst args)" "c' \<in> set CENSORED_OPTIONS" for c'
  proof -
    from c'(1) obtain i' where i': "i' < length args" "fst (args ! i') = c'"
      by (auto simp: in_set_conv_nth)
    have "i' \<noteq> i" using i' i c'(2) assms(6) by auto
    moreover have "get_property (json_copy args) c' = parse_value i' (snd (args ! i'))"
      using get_json_copy[OF assms(1) i'(1)] i'(2) by simp
    moreover have "Object i v = parse_value i v" using assms(4) by (simp add: parse_value_Object)
    ultimately show ?thesis
      using assms(4) by (simp add: copyk parse_value_strict_equals)
  qed
  let ?hit = "\<lambda>k. \<exists>c' \<in> set (map fst args). c' \<in> set CENSORED_OPTIONS
                 \<and> strict_equals (get_property (json_copy args) k) (get_property (json_copy args) c')"
  from char have val: "\<And>k. k \<in> set (map fst args) \<Longrightarrow>
      get_property (censorYargsArguments args) k =
        (if ?hit k then String CENSOR_RESPONSE else get_property (json_copy args) k)"
    by blast
  have "?hit c" using cin assms(3) strict_equals_refl by blast
  then have "get_property (censorYargsArguments args) c = String CENSOR_RESPONSE"
    by (simp only: val[OF cin] if_True)
  moreover have "\<not> ?hit k" using no by blast
  then have "get_property (censorYargsArguments args) k = Object i v"
    by (simp only: val[OF kin] if_False copyk)
  ultimately show ?thesis by blast
qed

text \<open>
  C10, as stated, fails when the other key is a censored name too: in
  \<open>{password: [1], pass: [1]}\<close> the key \<open>pass\<close> holds an array of the same structure as the
  array of \<open>password\<close>, and it is replaced.
\<close>


theorem censorYargsArguments_objects_witness:
  "get_property (censorYargsArguments
       [(''password'', JArray [JNumber 1]), (''pw'', JArray [JNumber 1])]) ''password''
     = String ''****''
   \<and> (\<exists>r. get_property (censorYargsArguments
       [(''password'', JArray [JNumber 1]), (''pw'', JArray [JNumber 1])]) ''pw''
     = Object r (JArray [JNumber 1]))"
  using censorYargsArguments_objects
          [of "[(''password'', JArray [JNumber 1]), (''pw'', JArray [JNumber 1])]"
              "''password''" "JArray [JNumber 1]" "''pw''"]
  by (simp add: CENSORED_OPTIONS_def CENSOR_RESPONSE_def is_primitive_def)


theorem censorYargsArguments_objects_counterexample:
  "get_property (censorYargsArguments
       [(''password'', JArray [JNumber 1]), (''pass'', JArray [JNumber 1])]) ''pass''
     = String ''****''"
  by code_simp

section \<open>Properties of the nearest command\<close>

lemma closest_fold_invariant:
  fixes lev a
  defines "d \<equiv> \<lambda>c. lev a (fullName c)"
  defines "el \<equiv> \<lambda>c. trim (fullName c) \<noteq> []"
  shows "case fold (closest_step lev a) tree (999999, None) of (m, r) \<Rightarrow>
           m \<le> 999999 \<and> (\<forall>c \<in> set tree. el c \<longrightarrow> m \<le> d c)
           \<and> (r = None \<longrightarrow> m = 999999)
           \<and> (\<forall>n. r = Some n \<longrightarrow> m = lev a n \<and> m < 999999
                \<and> (\<exists>pre c post. tree = pre @ c # post \<and> fullName c = n \<and> el c
                      \<and> (\<forall>b \<in> set pre. el b \<longrightarrow> lev a n < d b)
                      \<and> (\<forall>b \<in> set post. el b \<longrightarrow> lev a n \<le> d b)))"
proof (induction tree rule: rev_induct)
  case Nil
  show ?case by simp
next
  case (snoc x xs)
  obtain m r where st: "fold (closest_step lev a) xs (999999, None) = (m, r)"
    by (cases "fold (closest_step lev a) xs (999999, None)")
  from snoc st have m: "m \<le> 999999" and lower: "\<forall>c \<in> set xs. el c \<longrightarrow> m \<le> d c"
    and none: "r = None \<longrightarrow> m = 999999"
    and some: "\<And>n. r = Some n \<Longrightarrow> m = lev a n \<and> m < 999999
                \<and> (\<exists>pre c post. xs = pre @ c # post \<and> fullName c = n \<and> el c
                      \<and> (\<forall>b \<in> set pre. el b \<longrightarrow> lev a n < d b)
                      \<and> (\<forall>b \<in> set post. el b \<longrightarrow> lev a n \<le> d b))"
    by auto
  show ?case
  proof (cases "el x \<and> d x < m")
    case True
    then have step: "fold (closest_step lev a) (xs @ [x]) (999999, None) = (d x, Some (fullName x))"
      by (simp add: st closest_step_def el_def d_def)
    have "\<forall>b \<in> set xs. el b \<longrightarrow> d x < d b" using lower True by fastforce
    then have "\<exists>pre c post. xs @ [x] = pre @ c # post \<and> fullName c = fullName x \<and> el c
                      \<and> (\<forall>b \<in> set pre. el b \<longrightarrow> lev a (fullName x) < d b)
                      \<and> (\<forall>b \<in> set post. el b \<longrightarrow> lev a (fullName x) \<le> d b)"
      using True by (intro exI[of _ xs] exI[of _ x] exI[of _ "[]"]) (simp add: d_def)
    with True m lower show ?thesis
      unfolding step by (auto simp: d_def)
  next
    case False
    then have step: "fold (closest_step lev a) (xs @ [x]) (999999, None) = (m, r)"
      by (auto simp add: st closest_step_def el_def d_def)
    have low': "\<forall>c \<in> set (xs @ [x]). el c \<longrightarrow> m \<le> d c"
      using lower False by auto
    have "\<exists>pre c post. xs @ [x] = pre @ c # post \<and> fullName c = n \<and> el c
                      \<and> (\<forall>b \<in> set pre. el b \<longrightarrow> lev a n < d b)
                      \<and> (\<forall>b \<in> set post. el b \<longrightarrow> lev a n \<le> d b)" if r: "r = Some n" for n
    proof -
      from some[OF r] obtain pre c post where p: "xs = pre @ c # post" "fullName c = n" "el c"
        "\<forall>b \<in> set pre. el b \<longrightarrow> lev a n < d b" "\<forall>b \<in> set post. el b \<longrightarrow> lev a n \<le> d b"
        and mn: "m = lev a n"
        by blast
      have "\<forall>b \<in> set (post @ [x]). el b \<longrightarrow> lev a n \<le> d b"
        using p(5) False mn by auto
      with p show ?thesis
        by (intro exI[of _ pre] exI[of _ c] exI[of _ "post @ [x]"]) simp
    qed
    with m low' none some show ?thesis
      unfolding step by auto
  qed
qed

lemma closestCommand_nearest:
  "(closestCommand lev a tree = None \<longleftrightarrow>
      (\<forall>c \<in> set tree. trim (fullName c) \<noteq> [] \<longrightarrow> 999999 \<le> lev a (fullName c)))
   \<and> (\<forall>n. closestCommand lev a tree = Some n \<longrightarrow>
        lev a n < 999999
        \<and> (\<exists>pre c post. tree = pre @ c # post \<and> fullName c = n \<and> trim (fullName c) \<noteq> []
              \<and> (\<forall>b \<in> set pre. trim (fullName b) \<noteq> [] \<longrightarrow> lev a n < lev a (fullName b))
              \<and> (\<forall>b \<in> set post. trim (fullName b) \<noteq> [] \<longrightarrow> lev a n \<le> lev a (fullName b))))"
proof -
  obtain m r where st: "fold (closest_step lev a) tree (999999, None) = (m, r)"
    by (cases "fold (closest_step lev a) tree (999999, None)")
  have r: "closestCommand lev a tree = r" by (simp add: closestCommand_def st)
  note inv = closest_fold_invariant[where lev = lev and a = a and tree = tree, unfolded st, simplified]
  have 1: "r = None \<longleftrightarrow> (\<forall>c \<in> set tree. trim (fullName c) \<noteq> [] \<longrightarrow> 999999 \<le> lev a (fullName c))"
  proof
    assume "r = None"
    with inv show "\<forall>c \<in> set tree. trim (fullName c) \<noteq> [] \<longrightarrow> 999999 \<le> lev a (fullName c)"
      by auto
  next
    assume all: "\<forall>c \<in> set tree. trim (fullName c) \<noteq> [] \<longrightarrow> 999999 \<le> lev a (fullName c)"
    show "r = None"
    proof (cases r)
      case None then show ?thesis .
    next
      case (Some n)
      with inv obtain pre c post where "tree = pre @ c # post" "fullName c = n"
        "trim (fullName c) \<noteq> []" "lev a n < 999999" by auto
      with all show ?thesis by fastforce
    qed
  qed
  from inv 1 show ?thesis unfolding r by auto
qed

text \<open>
  C8, as amended. For an entered text that is not blank, the handler builds the failure
  message from the result of the search. The search selects nothing exactly when every entry
  with a non-blank \<open>fullName\<close> has a distance of at least 999999, the initial value of the
  minimum; in particular when there is no such entry. Otherwise it selects the \<open>fullName\<close>
  of an entry with a non-blank \<open>fullName\<close> whose distance is smaller than that of every
  earlier such entry and not greater than that of every later one: the first entry of minimum
  distance.
\<close>

theorem unknown_command_nearest:
  assumes "trim a \<noteq> []"
  shows "\<exists>r. unknown_command lev a tree = FailureMessage r
     \<and> (r = None \<longleftrightarrow>
          (\<forall>c \<in> set tree. trim (fullName c) \<noteq> [] \<longrightarrow> 999999 \<le> lev a (fullName c)))
     \<and> (\<forall>n. r = Some n \<longrightarrow>
          lev a n < 999999
          \<and> (\<exists>pre c post. tree = pre @ c # post \<and> fullName c = n \<and> trim (fullName c) \<noteq> []
                \<and> (\<forall>b \<in> set pre. trim (fullName b) \<noteq> [] \<longrightarrow> lev a n < lev a (fullName b))
                \<and> (\<forall>b \<in> set post. trim (fullName b) \<noteq> [] \<longrightarrow> lev a n \<le> lev a (fullName b))))"
proof -
  have u: "unknown_command lev a tree = FailureMessage (closestCommand lev a tree)"
    using assms by (simp add: unknown_command_def)
  show ?thesis
    unfolding u
    by (rule exI[of _ "closestCommand lev a tree"], rule conjI, rule refl,
        rule closestCommand_nearest)
qed

text \<open>
  C8, as stated, fails for a command tree without an entry of non-blank \<open>fullName\<close>: the
  search selects no entry.
\<close>


theorem unknown_command_nearest_witness:
  "trim ''ab'' \<noteq> []
   \<and> unknown_command levenshtein ''ab''
        [\<lparr>fullName = '' ''\<rparr>, \<lparr>fullName = ''abcd''\<rparr>, \<lparr>fullName = ''a''\<rparr>, \<lparr>fullName = ''b''\<rparr>]
       = FailureMessage (Some ''a'')
   \<and> (\<exists>pre c post.
         [\<lparr>fullName = '' ''\<rparr>, \<lparr>fullName = ''abcd''\<rparr>, \<lparr>fullName = ''a''\<rparr>, \<lparr>fullName = ''b''\<rparr>]
           = pre @ c # post \<and> fullName c = ''a''
         \<and> (\<forall>b \<in> set pre. trim (fullName b) \<noteq> []
               \<longrightarrow> levenshtein ''ab'' ''a'' < levenshtein ''ab'' (fullName b))
         \<and> (\<forall>b \<in> set post. trim (fullName b) \<noteq> []
               \<longrightarrow> levenshtein ''ab'' ''a'' \<le> levenshtein ''ab'' (fullName b)))"
proof -
  let ?T = "[\<lparr>fullName = '' ''\<rparr>, \<lparr>fullName = ''abcd''\<rparr>, \<lparr>fullName = ''a''\<rparr>, \<lparr>fullName = ''b''\<rparr>]"
  have h: "trim ''ab'' \<noteq> []"
    by (simp add: trim_def isWhiteSpace_def)
  have e: "unknown_command levenshtein ''ab'' ?T = FailureMessage (Some ''a'')"
    by (simp add: unknown_command_def closestCommand_def closest_step_def trim_def
          isWhiteSpace_def)
  from unknown_command_nearest [OF h, of levenshtein ?T]
  obtain r where r: "unknown_command levenshtein ''ab'' ?T = FailureMessage r"
    and sel: "\<forall>n. r = Some n \<longrightarrow>
          levenshtein ''ab'' n < 999999
          \<and> (\<exists>pre c post. ?T = pre @ c # post \<and> fullName c = n \<and> trim (fullName c) \<noteq> []
                \<and> (\<forall>b \<in> set pre. trim (fullName b) \<noteq> []
                      \<longrightarrow> levenshtein ''ab'' n < levenshtein ''ab'' (fullName b))
                \<and> (\<forall>b \<in> set post. trim (fullName b) \<noteq> []
                      \<longrightarrow> levenshtein ''ab'' n \<le> levenshtein ''ab'' (fullName b)))"
    by (elim exE conjE)
  from r e have "r = Some ''a''" by simp
  with sel obtain pre c post where "?T = pre @ c # post" "fullName c = ''a''"
    "\<forall>b \<in> set pre. trim (fullName b) \<noteq> []
        \<longrightarrow> levenshtein ''ab'' ''a'' < levenshtein ''ab'' (fullName b)"
    "\<forall>b \<in> set post. trim (fullName b) \<noteq> []
        \<longrightarrow> levenshtein ''ab'' ''a'' \<le> levenshtein ''ab'' (fullName b)"
    by (elim allE[of _ "''a''"] impE exE conjE) assumption
  then have "\<exists>pre c post. ?T = pre @ c # post \<and> fullName c = ''a''
         \<and> (\<forall>b \<in> set pre. trim (fullName b) \<noteq> []
               \<longrightarrow> levenshtein ''ab'' ''a'' < levenshtein ''ab'' (fullName b))
         \<and> (\<forall>b \<in> set post. trim (fullName b) \<noteq> []
               \<longrightarrow> levenshtein ''ab'' ''a'' \<le> levenshtein ''ab'' (fullName b))"
    by (intro exI conjI)
  with h e show ?thesis by (intro conjI)
qed


theorem unknown_command_nearest_counterexample:
  "unknown_command levenshtein ''zosmff chk'' [\<lparr>fullName = []\<rparr>] = FailureMessage None"
  by (simp add: unknown_command_def closestCommand_def closest_step_def trim_def
        isWhiteSpace_def)

end
